theory Spec2Isabelle
  imports Main "HOL-Library.Extended_Nat" "HOL-Library.Multiset"
begin

section \<open>Generators as traces\<close>

text \<open>
  The combinatorial generators of \<^verbatim>\<open>generators.js\<close> are finite: each one yields a finite
  run of values and then either returns or throws. A generator is modelled by its trace:
  the values it yields, in order, and the exception (if any) that ends the run. A throw
  ends the generator, so nothing is yielded after it.
\<close>

datatype error = RangeError | TypeError | StackExhausted

type_synonym 'a gen = "'a list \<times> error option"

definition yielded :: "'a gen \<Rightarrow> 'a list" where
  "yielded g = fst g"

definition thrown :: "'a gen \<Rightarrow> error option" where
  "thrown g = snd g"

text \<open>\<^verbatim>\<open>throw new RangeError(...)\<close> as the first statement of a generator body.\<close>

definition throw :: "error \<Rightarrow> 'a gen" where
  "throw e = ([], Some e)"

text \<open>\<^verbatim>\<open>yield* array\<close>: an array yields its elements and never throws.\<close>

definition yield_all :: "'a list \<Rightarrow> 'a gen" where
  "yield_all xs = (xs, None)"

text \<open>
  Two generator statements in sequence (\<^verbatim>\<open>yield* g1; yield* g2\<close>): the second runs only
  when the first returned normally.
\<close>

definition then_gen :: "'a gen \<Rightarrow> 'a gen \<Rightarrow> 'a gen" where
  "then_gen g1 g2 =
     (case snd g1 of
        Some e \<Rightarrow> g1
      | None \<Rightarrow> (fst g1 @ fst g2, snd g2))"

text \<open>
  \<^verbatim>\<open>function* itermap(iterable, callbackFn)\<close>: every yielded item goes through the
  callback; an exception of the iterable ends the loop.
\<close>

definition itermap :: "'a gen \<Rightarrow> ('a \<Rightarrow> 'b) \<Rightarrow> 'b gen" where
  "itermap iterable callbackFn = (map callbackFn (fst iterable), snd iterable)"

text \<open>
  \<^verbatim>\<open>function* prefix(item, iterable)\<close> yields \<^verbatim>\<open>[item, ...p]\<close> for every \<^verbatim>\<open>p\<close> of the
  iterable.
\<close>

definition prefix :: "'a \<Rightarrow> 'a list gen \<Rightarrow> 'a list gen" where
  "prefix item iterable = itermap iterable (\<lambda>p. item # p)"

text \<open>
  \<^verbatim>\<open>for (let x of xs) { yield* body(x) }\<close> over an array, and over a generator: the
  body runs for each yielded item, the first exception ends everything, and the
  exception of the iterated generator itself surfaces after its last item.
\<close>

fun for_array :: "'a list \<Rightarrow> ('a \<Rightarrow> 'b gen) \<Rightarrow> 'b gen" where
  "for_array [] body = ([], None)"
| "for_array (x # xs) body = then_gen (body x) (for_array xs body)"

definition for_of :: "'a gen \<Rightarrow> ('a \<Rightarrow> 'b gen) \<Rightarrow> 'b gen" where
  "for_of g body = then_gen (for_array (fst g) body) ([], snd g)"

section \<open>combinations\<close>

text \<open>
  \<^verbatim>\<open>array_combinations(array, n, unused)\<close>. The count \<open>n\<close> is an integer. \<open>unused\<close> is
  \<^verbatim>\<open>false\<close> (\<open>None\<close>) or the array collecting the items left out so far; the source
  pushes to it before the second recursive call and pops afterwards, so the function
  returns the array's final state beside the trace. A yielded value is the chosen items
  and, when \<open>unused\<close> is an array, that array as last element: the pair of the chosen
  items and the contents of the unused array at the moment of the yield.

  On an empty array the guard \<^verbatim>\<open>n <= 0 || n > array.length\<close> is always true.
\<close>

type_synonym 'a combination = "'a list \<times> 'a list option"

definition toSpliced :: "'a list \<Rightarrow> nat \<Rightarrow> 'a list" where
  "toSpliced array i = take i array @ drop (Suc i) array"

definition push :: "'a list option \<Rightarrow> 'a \<Rightarrow> 'a list option" where
  "push unused item = map_option (\<lambda>u. u @ [item]) unused"

definition pop :: "'a list option \<Rightarrow> 'a list option" where
  "pop unused = map_option butlast unused"

definition prefix_combination :: "'a \<Rightarrow> 'a combination gen \<Rightarrow> 'a combination gen" where
  "prefix_combination item iterable = itermap iterable (\<lambda>(p, u). (item # p, u))"

fun array_combinations ::
  "'a list \<Rightarrow> int \<Rightarrow> 'a list option \<Rightarrow> 'a combination gen \<times> 'a list option" where
  "array_combinations [] n unused = (throw RangeError, unused)"
| "array_combinations (item # rest) n unused =
     (let array = item # rest in
      if n \<le> 0 \<or> n > int (length array) then (throw RangeError, unused)
      else if n = 1 \<and> unused \<noteq> None then
        (yield_all (map (\<lambda>i. ([array ! i], Some (the unused @ toSpliced array i)))
                        [0..<length array]), unused)
      else if n = 1 \<and> unused = None then
        (yield_all (map (\<lambda>item. ([item], None)) array), unused)
      else if n = int (length array) then
        (yield_all [(array, unused)], unused)
      else
        (let (g1, u1) = array_combinations rest (n - 1) unused;
             with_item = prefix_combination item g1
         in if thrown with_item \<noteq> None then (with_item, u1)
            else
              (let u2 = push u1 item;
                   (g2, u3) = array_combinations rest n u2
               in if thrown g2 \<noteq> None then (then_gen with_item g2, u3)
                  else (then_gen with_item g2, pop u3))))"

text \<open>
  \<^verbatim>\<open>combinations(iterable, n, return_unused)\<close>; the iterable is given by the array it is
  spread into, and \<^verbatim>\<open>return_unused && []\<close> is \<^verbatim>\<open>false\<close> or a fresh empty array.
\<close>

definition combinations :: "'a list \<Rightarrow> int \<Rightarrow> bool \<Rightarrow> 'a combination gen" where
  "combinations iterable n return_unused =
     fst (array_combinations iterable n (if return_unused then Some [] else None))"

text \<open>
  The index vectors of a call: the combinations of the pool of positions \<open>[0..<n]\<close>.
\<close>

definition index_vectors :: "nat \<Rightarrow> int \<Rightarrow> nat list list" where
  "index_vectors n r = map fst (yielded (combinations [0..<n] r False))"

section \<open>partitions\<close>

text \<open>
  \<^verbatim>\<open>array_partitions(array, sizes)\<close>, with \<open>sizes\<close> an array of integers. Each value
  \<^verbatim>\<open>c\<close> of \<^verbatim>\<open>combinations(array, sizes[0], true)\<close> is split by \<^verbatim>\<open>c.pop()\<close> into the
  chosen items and the unused array, which is copied (\<^verbatim>\<open>[...unused]\<close>) before the
  combinations generator runs on; spreading something that is not an array would be a
  TypeError.

  With an empty \<open>sizes\<close> the source passes \<^verbatim>\<open>sizes[0] = undefined\<close> to
  \<^verbatim>\<open>array_combinations\<close>: every comparison with \<^verbatim>\<open>undefined\<close> or \<^verbatim>\<open>NaN\<close> is false, so
  the last branch recurses with \<^verbatim>\<open>n - 1 = NaN\<close> on ever shorter and then empty arrays
  without end, until the engine gives up. This is \<open>StackExhausted\<close>; nothing is yielded
  before it.
\<close>

fun array_partitions :: "'a list \<Rightarrow> int list \<Rightarrow> 'a list list gen" where
  "array_partitions array [] = throw StackExhausted"
| "array_partitions array [size0] =
     (if size0 \<noteq> int (length array) then throw RangeError else yield_all [[array]])"
| "array_partitions array (size0 # sizes) =
     for_of (combinations array size0 True)
       (\<lambda>(c, unused). case unused of
            Some unused \<Rightarrow> prefix c (array_partitions unused sizes)
          | None \<Rightarrow> throw TypeError)"

definition partitions :: "'a list \<Rightarrow> int list \<Rightarrow> 'a list list gen" where
  "partitions iterable sizes = array_partitions iterable sizes"


section \<open>product\<close>

text \<open>
  \<^verbatim>\<open>product(...iterables)\<close> first spreads every iterator argument into an array; each
  sequence is given here by the list of its items. \<^verbatim>\<open>array_product\<close> of no arrays at all
  iterates \<^verbatim>\<open>arrays[0] = undefined\<close>, a TypeError. The model is named \<open>product_js\<close>, since
  \<open>product\<close> is a constant of the list library.
\<close>

fun array_product :: "'a list list \<Rightarrow> 'a list gen" where
  "array_product [] = throw TypeError"
| "array_product [array0] = itermap (yield_all array0) (\<lambda>item. [item])"
| "array_product (array0 # arrays) =
     for_of (yield_all array0) (\<lambda>item. prefix item (array_product arrays))"

definition product_js :: "'a list list \<Rightarrow> 'a list gen" where
  "product_js iterables = array_product iterables"

text \<open>
  The recursive definition in the words of the specification: one sequence yields each
  element wrapped as a singleton; \<open>k > 1\<close> sequences yield, for each element \<open>a\<close> of the
  first in order, every \<open>[a, ...t]\<close> for \<open>t\<close> in the product of the remaining ones. The
  specification says nothing about zero sequences.
\<close>

fun product_spec :: "'a list list \<Rightarrow> 'a list list" where
  "product_spec [] = []"
| "product_spec [s] = map (\<lambda>a. [a]) s"
| "product_spec (s # rest) = concat (map (\<lambda>a. map (\<lambda>t. a # t) (product_spec rest)) s)"


section \<open>permutations\<close>

text \<open>
  \<^verbatim>\<open>array_permutations(array)\<close> works on one array in place: the loop removes the item at
  \<open>i\<close> (\<^verbatim>\<open>splice(i, 1)\<close>), yields the permutations of what is left behind that item,
  and puts the item back (\<^verbatim>\<open>splice(i, 0, item)\<close>); the loop bound \<^verbatim>\<open>array.length\<close> is read
  again on every round. The model passes the array through: both functions return the
  yielded values and the array as they leave it. Every value is a copy made at the
  moment of the yield (\<^verbatim>\<open>[item, ...p]\<close>). The generator has no \<^verbatim>\<open>throw\<close>.
\<close>

definition splice_out :: "'a list \<Rightarrow> nat \<Rightarrow> 'a list" where
  "splice_out array i = take i array @ drop (Suc i) array"

definition splice_in :: "'a list \<Rightarrow> nat \<Rightarrow> 'a \<Rightarrow> 'a list" where
  "splice_in array i item = take i array @ item # drop i array"

function array_permutations :: "'a list \<Rightarrow> 'a list list \<times> 'a list"
  and permutations_loop :: "nat \<Rightarrow> 'a list \<Rightarrow> 'a list list \<times> 'a list"
where
  "array_permutations array =
     (if length array \<le> 1 then ([array], array) else permutations_loop 0 array)"
| "permutations_loop i array =
     (if i < length array then
        (let item = array ! i;
             array1 = splice_out array i;
             (ys, array2) = array_permutations array1;
             array3 = splice_in array2 i item;
             (zs, array4) = permutations_loop (i + 1) array3
         in (map ((#) item) ys @ zs, array4))
      else ([], array))"
  by pat_completeness auto

text \<open>
  The loop only ends because a recursive call hands the array back with its length
  unchanged; this is proved on the domain of the functions first.
\<close>

lemma length_splice_out: "i < length array \<Longrightarrow> length (splice_out array i) = length array - 1"
  by (simp add: splice_out_def)

lemma length_splice_in: "i \<le> length array \<Longrightarrow> length (splice_in array i item) = Suc (length array)"
  by (simp add: splice_in_def)

lemma array_permutations_length_dom:
  "array_permutations_permutations_loop_dom (Inl array) \<Longrightarrow>
     length (snd (array_permutations array)) = length array"
  "array_permutations_permutations_loop_dom (Inr (i, array)) \<Longrightarrow>
     length (snd (permutations_loop i array)) = length array"
proof (induction array and i array rule: array_permutations_permutations_loop.pinduct)
  case (1 array)
  then show ?case by (simp add: array_permutations.psimps)
next
  case (2 i array)
  show ?case
  proof (cases "i < length array")
    case True
    have a: "length (snd (array_permutations (splice_out array i))) = length array - 1"
      using "2.IH"(1)[OF True refl refl] True by (simp add: length_splice_out)
    have "length (snd (permutations_loop (i + 1)
            (splice_in (snd (array_permutations (splice_out array i))) i (array ! i))))
          = length (splice_in (snd (array_permutations (splice_out array i))) i (array ! i))"
      by (rule "2.IH"(2)[OF True refl refl refl prod.collapse refl])
    also have "\<dots> = length array" using a True by (simp add: length_splice_in)
    finally show ?thesis using True "2.hyps"
      by (simp add: permutations_loop.psimps Let_def case_prod_beta)
  next
    case False
    then show ?thesis using "2.hyps" by (simp add: permutations_loop.psimps)
  qed
qed

termination array_permutations
proof (relation "measures [\<lambda>x. case x of Inl a \<Rightarrow> length a | Inr (i, a) \<Rightarrow> length a,
                          \<lambda>x. case x of Inl a \<Rightarrow> 1 | Inr (i, a) \<Rightarrow> 0,
                          \<lambda>x. case x of Inl a \<Rightarrow> 0 | Inr (i, a) \<Rightarrow> length a - i]",
       goal_cases)
  case 1
  then show ?case by simp
next
  case (2 array)
  then show ?case by simp
next
  case (3 i array item array1)
  then show ?case by (simp add: length_splice_out)
next
  case (4 i array item array1 x ys array2 array3)
  then have e: "array_permutations array1 = (ys, array2)" by simp
  have "length (snd (array_permutations array1)) = length array1"
    using 4 by (intro array_permutations_length_dom(1)) simp
  with e have "length array2 = length array1" by simp
  then have "length array2 = length array - 1"
    using 4(1,3) by (simp add: length_splice_out)
  with 4(1,6) show ?case by (simp add: length_splice_in, arith)
qed

declare array_permutations.simps [simp del] permutations_loop.simps [simp del]

text \<open>
  \<^verbatim>\<open>permutations(iterable)\<close> takes the iterable alone; JavaScript drops any further
  argument of a call.
\<close>

definition permutations :: "'a list \<Rightarrow> 'a list gen" where
  "permutations iterable = yield_all (fst (array_permutations iterable))"

section \<open>take\<close>

text \<open>
  \<^verbatim>\<open>enumerate(iterable, start)\<close> is \<^verbatim>\<open>zip(count(start), iterable)\<close>: the counter never
  ends, so the pairs \<^verbatim>\<open>[i, v]\<close> number the items of the iterable from \<open>start\<close> and stop
  with it. Source and index sequence are finite lists here.

  \<^verbatim>\<open>take(iterable, indices)\<close> reads the first index, returns if there is none, and then
  walks the enumerated source: at a position equal to the current index it yields the
  item and reads the next index, returning when the indices are used up. The function
  ends with the loop, that is when the source does.
\<close>

definition enumerate_js :: "'a list \<Rightarrow> int \<Rightarrow> (int \<times> 'a) list" where
  "enumerate_js iterable start = zip (map (\<lambda>k. start + int k) [0..<length iterable]) iterable"

fun take_loop :: "(int \<times> 'a) list \<Rightarrow> int \<Rightarrow> int list \<Rightarrow> 'a list" where
  "take_loop [] idx indices = []"
| "take_loop ((i, v) # rest) idx indices =
     (if i = idx
      then v # (case indices of [] \<Rightarrow> [] | idx' # indices' \<Rightarrow> take_loop rest idx' indices')
      else take_loop rest idx indices)"

definition take_js :: "'a list \<Rightarrow> int list \<Rightarrow> 'a gen" where
  "take_js iterable indices =
     (case indices of
        [] \<Rightarrow> yield_all []
      | idx # indices' \<Rightarrow> yield_all (take_loop (enumerate_js iterable 0) idx indices'))"


section \<open>Lazy generators: zip and cycle\<close>

text \<open>
  \<^verbatim>\<open>zip\<close> and \<^verbatim>\<open>cycle\<close> can run for ever, so they are modelled by what one call of
  \<^verbatim>\<open>next()\<close> does to the state of the generator: it yields a value and leaves a new
  state, or reports that the generator is done. A call that never returns is \<open>None\<close>.
  \<open>run nxt k s\<close> is the consumer that calls \<^verbatim>\<open>next()\<close> up to \<open>k\<close> times from state \<open>s\<close>:
  it gives the values received and tells whether the generator is still running (and in
  which state), finished, or hangs inside a call.
\<close>

datatype ('a, 's) step = Yield 'a 's | Done

datatype 's outcome = Running 's | Finished | Hangs

fun run :: "('s \<Rightarrow> ('a, 's) step option) \<Rightarrow> nat \<Rightarrow> 's \<Rightarrow> 'a list \<times> 's outcome" where
  "run nxt 0 s = ([], Running s)"
| "run nxt (Suc k) s =
     (case nxt s of
        None \<Rightarrow> ([], Hangs)
      | Some Done \<Rightarrow> ([], Finished)
      | Some (Yield v s') \<Rightarrow> (case run nxt k s' of (vs, out) \<Rightarrow> (v # vs, out)))"

text \<open>
  \<^verbatim>\<open>zip(...iterables)\<close>: the state is the array of iterators obtained from the
  arguments, and \<open>nxt\<close> is their \<^verbatim>\<open>next\<close> method (\<open>None\<close> for \<^verbatim>\<open>done\<close>). One round of the
  loop advances every iterator and yields the array of their values if none was done;
  otherwise the generator returns. \<open>array_next\<close> is the iterator of an array, by the items
  it has left.
\<close>

definition zip_next :: "('c \<Rightarrow> ('a \<times> 'c) option) \<Rightarrow> 'c list \<Rightarrow> ('a list, 'c list) step" where
  "zip_next nxt iterators =
     (let result = map nxt iterators in
      if list_all (\<lambda>r. r \<noteq> None) result
      then Yield (map (\<lambda>r. fst (the r)) result) (map (\<lambda>r. snd (the r)) result)
      else Done)"

definition array_next :: "'a list \<Rightarrow> ('a \<times> 'a list) option" where
  "array_next items = (case items of [] \<Rightarrow> None | v # rest \<Rightarrow> Some (v, rest))"


text \<open>
  \<^verbatim>\<open>cycle(iterable, n)\<close>: the argument is an array, which hands out a fresh iterator
  over its items at every \<^verbatim>\<open>yield*\<close>, or a single-use iterator (such as a generator
  object), which is its own iterator and is given by the items it has left. The count is
  a natural number or \<^verbatim>\<open>Infinity\<close>, the default; \<^verbatim>\<open>Infinity - 1\<close> is \<^verbatim>\<open>Infinity\<close>.
  The state of the generator is the count, the argument, and what the \<^verbatim>\<open>yield*\<close> in
  progress delegates to (\<open>None\<close> before the first round). A call of \<^verbatim>\<open>next()\<close> yields the
  next item of the delegate; when there is none it goes through \<^verbatim>\<open>while (n-- > 0)\<close>
  again, and this can go on for ever.
\<close>

datatype 'a iterable = Array "'a list" | Iterator "'a list"

datatype 'a delegate = ArrayIterator "'a list" | ArgumentItself

definition get_iterator :: "'a iterable \<Rightarrow> 'a delegate" where
  "get_iterator iterable = (case iterable of Array items \<Rightarrow> ArrayIterator items | Iterator _ \<Rightarrow> ArgumentItself)"

type_synonym 'a cycle_state = "enat \<times> 'a iterable \<times> 'a delegate option"

definition delegate_next ::
  "'a iterable \<Rightarrow> 'a delegate option \<Rightarrow> ('a \<times> 'a iterable \<times> 'a delegate option) option" where
  "delegate_next iterable delegate =
     (case delegate of
        None \<Rightarrow> None
      | Some (ArrayIterator []) \<Rightarrow> None
      | Some (ArrayIterator (v # rest)) \<Rightarrow> Some (v, iterable, Some (ArrayIterator rest))
      | Some ArgumentItself \<Rightarrow>
          (case iterable of
             Iterator (v # rest) \<Rightarrow> Some (v, Iterator rest, Some ArgumentItself)
           | _ \<Rightarrow> None))"

partial_function (option) cycle_next ::
  "enat \<Rightarrow> 'a iterable \<Rightarrow> 'a delegate option \<Rightarrow> ('a, 'a cycle_state) step option" where
  "cycle_next n iterable delegate =
     (case delegate_next iterable delegate of
        Some (v, iterable', delegate') \<Rightarrow> Some (Yield v (n, iterable', delegate'))
      | None \<Rightarrow>
          if n > 0 then cycle_next (n - 1) iterable (Some (get_iterator iterable))
          else Some Done)"

definition cycle :: "'a iterable \<Rightarrow> enat \<Rightarrow> 'a cycle_state" where
  "cycle iterable n = (n, iterable, None)"

definition cycle_step :: "'a cycle_state \<Rightarrow> ('a, 'a cycle_state) step option" where
  "cycle_step st = (case st of (n, iterable, delegate) \<Rightarrow> cycle_next n iterable delegate)"

text \<open>The delegate has nothing left: the next call goes back to the loop test.\<close>

definition exhausted :: "'a delegate option \<Rightarrow> bool" where
  "exhausted d = (d = None \<or> d = Some (ArrayIterator []))"

section \<open>Results for \<open>combinations\<close> and \<open>partitions\<close>\<close>

subsection \<open>Traces of \<open>array_combinations\<close>\<close>

lemma pop_push: "pop (push u item) = u"
  by (cases u) (simp_all add: pop_def push_def)

lemma thrown_simps:
  "thrown (throw e) = Some e" "thrown (yield_all xs) = None"
  "thrown (itermap g f) = thrown g" "thrown (prefix_combination item h) = thrown h"
  "thrown (then_gen g1 g2) = (case thrown g1 of Some e \<Rightarrow> Some e | None \<Rightarrow> thrown g2)"
  by (simp_all add: thrown_def throw_def yield_all_def itermap_def prefix_combination_def
      then_gen_def split: option.splits)

lemma yielded_simps:
  "yielded (throw e) = []" "yielded (yield_all xs) = xs"
  "yielded (itermap g f) = map f (yielded g)"
  "yielded (prefix_combination item h) = map (\<lambda>(p, u). (item # p, u)) (yielded h)"
  "thrown g1 = None \<Longrightarrow> yielded (then_gen g1 g2) = yielded g1 @ yielded g2"
  by (simp_all add: thrown_def yielded_def throw_def yield_all_def itermap_def
      prefix_combination_def then_gen_def split: option.splits)

lemma array_combinations_valid:
  "1 \<le> n \<Longrightarrow> n \<le> int (length array) \<Longrightarrow>
     thrown (fst (array_combinations array n unused)) = None \<and>
     snd (array_combinations array n unused) = unused"
proof (induction array n unused rule: array_combinations.induct)
  case (1 n unused)
  then show ?case by simp
next
  case (2 item rest n unused)
  show ?case
  proof (cases "n = 1 \<or> n = int (length (item # rest))")
    case True
    then show ?thesis using "2.prems" by (auto simp: thrown_simps Let_def)
  next
    case False
    with "2.prems" have n: "1 \<le> n - 1" "n - 1 \<le> int (length rest)" "1 \<le> n" "n \<le> int (length rest)"
      by auto
    have a: "thrown (fst (array_combinations rest (n - 1) unused)) = None"
      "snd (array_combinations rest (n - 1) unused) = unused"
      using "2.IH"(1)[OF refl _ _ _ _ n(1,2)] False "2.prems" by auto
    have b: "thrown (fst (array_combinations rest n (push unused item))) = None"
      "snd (array_combinations rest n (push unused item)) = push unused item"
      using "2.IH"(2)[OF refl _ _ _ _ refl prod.collapse refl _ refl n(3,4)]
         False "2.prems" a
      by (auto simp: thrown_simps)
    show ?thesis using False "2.prems" a b
      by (simp add: Let_def case_prod_beta thrown_simps pop_push)
  qed
qed

lemma array_combinations_invalid:
  "n \<le> 0 \<or> int (length array) < n \<Longrightarrow> array_combinations array n unused = (throw RangeError, unused)"
  by (cases array) (auto simp: Let_def)

lemma array_combinations_one_unused:
  "array \<noteq> [] \<Longrightarrow> fst (array_combinations array 1 (Some u)) =
     yield_all (map (\<lambda>i. ([array ! i], Some (u @ toSpliced array i))) [0..<length array])"
  by (cases array) (auto simp: Let_def)

lemma array_combinations_one:
  "array \<noteq> [] \<Longrightarrow> fst (array_combinations array 1 None) =
     yield_all (map (\<lambda>item. ([item], None)) array)"
  by (cases array) (auto simp: Let_def)

lemma array_combinations_all:
  "1 < n \<Longrightarrow> n = int (length array) \<Longrightarrow>
     fst (array_combinations array n unused) = yield_all [(array, unused)]"
  by (cases array) (auto simp: Let_def)

lemma array_combinations_rec:
  assumes "1 < n" "n < int (length (item # rest))"
  shows "fst (array_combinations (item # rest) n unused) =
     then_gen (prefix_combination item (fst (array_combinations rest (n - 1) unused)))
              (fst (array_combinations rest n (push unused item)))"
proof -
  have "1 \<le> n - 1" "n - 1 \<le> int (length rest)" using assms by auto
  from array_combinations_valid[OF this, of unused] show ?thesis
    using assms by (simp add: Let_def case_prod_beta thrown_simps)
qed

declare array_combinations.simps [simp del]

lemma map_nth_fun: "map (\<lambda>i. f (xs ! i)) [0..<length xs] = map f xs"
proof -
  have "map (\<lambda>i. f (xs ! i)) [0..<length xs] = map f (map ((!) xs) [0..<length xs])"
    by (simp only: map_map o_def)
  then show ?thesis by (simp only: map_nth)
qed

subsection \<open>Sublists of a given length\<close>

lemma filter_length0_subseqs: "filter (\<lambda>c. length c = 0) (subseqs xs) = [[]]"
  by (induction xs) (simp_all add: Let_def filter_map o_def)

lemma filter_length_Suc_subseqs:
  "filter (\<lambda>c. length c = Suc k) (subseqs (x # xs)) =
     map ((#) x) (filter (\<lambda>c. length c = k) (subseqs xs)) @ filter (\<lambda>c. length c = Suc k) (subseqs xs)"
  by (simp add: Let_def filter_map o_def)

lemma length_subseqs_le: "c \<in> set (subseqs xs) \<Longrightarrow> length c \<le> length xs"
  by (induction xs arbitrary: c) (auto simp: Let_def le_SucI)

lemma filter_length_gt_subseqs:
  "length xs < k \<Longrightarrow> filter (\<lambda>c. length c = k) (subseqs xs) = []"
  by (auto simp: filter_empty_conv dest: length_subseqs_le)

lemma filter_length_all_subseqs:
  "filter (\<lambda>c. length c = length xs) (subseqs xs) = [xs]"
proof (induction xs)
  case Nil
  then show ?case by simp
next
  case (Cons x xs)
  show ?case
    by (simp add: filter_length_Suc_subseqs Cons filter_length_gt_subseqs del: subseqs.simps)
qed

lemma filter_length1_subseqs: "filter (\<lambda>c. length c = Suc 0) (subseqs xs) = map (\<lambda>x. [x]) xs"
proof (induction xs)
  case Nil
  then show ?case by simp
next
  case (Cons x xs)
  show ?case
    using filter_length0_subseqs[of xs]
    by (simp add: filter_length_Suc_subseqs Cons  del: subseqs.simps)
qed

lemma map_fst_prefix_combination:
  "map fst (yielded (prefix_combination item g)) = map ((#) item) (map fst (yielded g))"
  by (simp add: yielded_simps case_prod_beta o_def)

lemma chosen_array_combinations:
  "1 \<le> n \<Longrightarrow> n \<le> int (length array) \<Longrightarrow>
     map fst (yielded (fst (array_combinations array n unused))) =
     filter (\<lambda>c. length c = nat n) (subseqs array)"
proof (induction array arbitrary: n unused)
  case Nil
  then show ?case by simp
next
  case (Cons item rest)
  consider "n = 1" | "1 < n" "n = int (length (item # rest))" | "1 < n" "n < int (length (item # rest))"
    using Cons.prems by linarith
  then show ?case
  proof cases
    case 1
    have "map (\<lambda>i. [(item # rest) ! i]) [0..<length (item # rest)] = map (\<lambda>x. [x]) (item # rest)"
      by (rule map_nth_fun)
    then show ?thesis using 1 filter_length1_subseqs[of "item # rest"]
      by (cases unused)
        (simp_all add: array_combinations_one array_combinations_one_unused yielded_simps o_def
          del: subseqs.simps upt_Suc)
  next
    case 2
    then have "nat n = length (item # rest)" by simp
    then show ?thesis
      by (simp only: array_combinations_all[OF 2] yielded_simps filter_length_all_subseqs)
        simp
  next
    case 3
    then have a: "1 \<le> n - 1" "n - 1 \<le> int (length rest)" "1 \<le> n" "n \<le> int (length rest)"
      by auto
    define k where "k = nat n - 1"
    have k: "nat n = Suc k" "nat (n - 1) = k" using 3 by (simp_all add: k_def)
    have g1: "thrown (prefix_combination item (fst (array_combinations rest (n - 1) unused))) = None"
      using array_combinations_valid[OF a(1,2), of unused] by (simp add: thrown_simps)
    show ?thesis
      using Cons.IH[OF a(1,2), of unused] Cons.IH[OF a(3,4), of "push unused item"]
      by (simp only: array_combinations_rec[OF 3] yielded_simps(5)[OF g1] map_append
          map_fst_prefix_combination k filter_length_Suc_subseqs)
  qed
qed

lemma length_filter_length_subseqs:
  "length (filter (\<lambda>c. length c = k) (subseqs xs)) = length xs choose k"
proof (induction xs arbitrary: k)
  case Nil
  then show ?case by (cases k) simp_all
next
  case (Cons x xs)
  show ?case
  proof (cases k)
    case 0
    then show ?thesis by (simp only: filter_length0_subseqs) simp
  next
    case (Suc j)
    then show ?thesis
      by (simp only: filter_length_Suc_subseqs length_append length_map Cons list.size) simp
  qed
qed

lemma subseqs_map: "subseqs (map f xs) = map (map f) (subseqs xs)"
  by (induction xs) (simp_all add: Let_def)

lemma sorted_wrt_subseqs:
  "sorted_wrt R xs \<Longrightarrow> c \<in> set (subseqs xs) \<Longrightarrow> sorted_wrt R c \<and> set c \<subseteq> set xs"
  by (induction xs arbitrary: c) (fastforce simp: Let_def)+

lemma lexordp_filter_length_subseqs:
  "sorted_wrt (<) (xs :: 'a :: linorder list) \<Longrightarrow>
     sorted_wrt (lexordp (<)) (filter (\<lambda>c. length c = k) (subseqs xs))"
proof (induction xs arbitrary: k)
  case Nil
  then show ?case by simp
next
  case (Cons x xs)
  show ?case
  proof (cases k)
    case 0
    then show ?thesis by (simp only: filter_length0_subseqs) simp
  next
    case (Suc j)
    have xs: "sorted_wrt (<) xs" and x: "\<forall>y\<in>set xs. x < y" using Cons.prems by simp_all
    have cross: "lexordp (<) (x # a) b"
      if "b \<in> set (filter (\<lambda>c. length c = Suc j) (subseqs xs))" for a b
    proof -
      from that have "length b = Suc j" by simp
      then obtain y b' where b: "b = y # b'" by (cases b) auto
      with that have "y \<in> set xs" using sorted_wrt_subseqs[OF xs, of b] by auto
      with x b show ?thesis by (simp add: List.lexordp_def)
    qed
    have "sorted_wrt (lexordp (<)) (map ((#) x) (filter (\<lambda>c. length c = j) (subseqs xs)))"
      using Cons.IH[OF xs, of j] by (simp add: sorted_wrt_map List.lexordp_def)
    then show ?thesis using Cons.IH[OF xs, of "Suc j"] cross
      by (simp only: Suc filter_length_Suc_subseqs sorted_wrt_append) auto
  qed
qed

lemma distinct_sets_filter_subseqs:
  "distinct xs \<Longrightarrow> distinct (map set (filter P (subseqs xs)))"
  by (simp add: distinct_map_filter distinct_set_subseqs)

lemma chosen_combinations:
  assumes "1 \<le> r" "r \<le> int (length pool)"
  shows "map fst (yielded (combinations pool r ru)) = filter (\<lambda>c. length c = nat r) (subseqs pool)"
  unfolding combinations_def by (rule chosen_array_combinations[OF assms])

lemma index_vectors_eq:
  assumes "1 \<le> r" "r \<le> int n"
  shows "index_vectors n r = filter (\<lambda>c. length c = nat r) (subseqs [0..<n])"
  unfolding index_vectors_def using assms by (simp add: chosen_combinations)

lemma mset_toSpliced:
  assumes "i < length xs"
  shows "mset [xs ! i] + mset (toSpliced xs i) = mset xs"
proof -
  have "mset xs = mset (take i xs @ xs ! i # drop (Suc i) xs)"
    by (rule arg_cong[where f = mset], rule id_take_nth_drop[OF assms])
  then show ?thesis by (simp add: toSpliced_def)
qed

lemma unused_array_combinations:
  "1 \<le> n \<Longrightarrow> n \<le> int (length array) \<Longrightarrow>
   (c, u) \<in> set (yielded (fst (array_combinations array n (Some u0)))) \<Longrightarrow>
   \<exists>un. u = Some (u0 @ un) \<and> mset c + mset un = mset array"
proof (induction array arbitrary: n u0 c u)
  case Nil
  then show ?case by simp
next
  case (Cons item rest)
  consider "n = 1" | "1 < n" "n = int (length (item # rest))" | "1 < n" "n < int (length (item # rest))"
    using Cons.prems by linarith
  then show ?case
  proof cases
    case 1
    then obtain i where i: "i < length (item # rest)" "c = [(item # rest) ! i]"
       "u = Some (u0 @ toSpliced (item # rest) i)"
      using Cons.prems(3) by (auto simp: array_combinations_one_unused yielded_simps simp del: upt_Suc)
    then show ?thesis using mset_toSpliced[OF i(1)] by blast
  next
    case 2
    then show ?thesis using Cons.prems(3) by (simp add: array_combinations_all yielded_simps)
  next
    case 3
    then have a: "1 \<le> n - 1" "n - 1 \<le> int (length rest)" "1 \<le> n" "n \<le> int (length rest)"
      by auto
    have g1: "thrown (prefix_combination item (fst (array_combinations rest (n - 1) (Some u0)))) = None"
      using array_combinations_valid[OF a(1,2), of "Some u0"] by (simp add: thrown_simps)
    from Cons.prems(3) consider
      p where "c = item # p" "(p, u) \<in> set (yielded (fst (array_combinations rest (n - 1) (Some u0))))"
      | "(c, u) \<in> set (yielded (fst (array_combinations rest n (Some (u0 @ [item])))))"
      by (auto simp: array_combinations_rec[OF 3] yielded_simps(5)[OF g1] yielded_simps push_def)
    then show ?thesis
    proof cases
      case 1
      from Cons.IH[OF a(1,2) 1(2)] 1(1) show ?thesis by auto
    next
      case 2
      from Cons.IH[OF a(3,4) 2] show ?thesis by auto
    qed
  qed
qed

subsection \<open>Loops over generators\<close>

lemma for_of_throw: "for_of (throw e) body = throw e"
  by (simp add: for_of_def throw_def then_gen_def)

lemma for_array_ok:
  "\<forall>x \<in> set xs. thrown (body x) = None \<Longrightarrow>
     for_array xs body = yield_all (concat (map (\<lambda>x. yielded (body x)) xs))"
  by (induction xs) (auto simp: yield_all_def then_gen_def thrown_def yielded_def split: option.splits)

lemma for_of_ok:
  "thrown g = None \<Longrightarrow> \<forall>x \<in> set (yielded g). thrown (body x) = None \<Longrightarrow>
     for_of g body = yield_all (concat (map (\<lambda>x. yielded (body x)) (yielded g)))"
  by (simp add: for_of_def for_array_ok[unfolded yielded_def thrown_def] yield_all_def
      then_gen_def thrown_def yielded_def)



lemma thrown_prefix: "thrown (prefix c g) = thrown g"
  by (simp add: prefix_def thrown_simps)

lemma yielded_prefix: "yielded (prefix c g) = map ((#) c) (yielded g)"
  by (simp add: prefix_def yielded_simps)

lemma sum_list_const_mult:
  "\<forall>x \<in> set xs. f x * q = (m::nat) \<Longrightarrow> sum_list (map f xs) * q = length xs * m"
  by (induction xs) (simp_all add: algebra_simps)

lemma combinations_unused:
  assumes "1 \<le> n" "n \<le> int (length array)"
  shows "thrown (combinations array n True) = None"
    and "length (yielded (combinations array n True)) = length array choose nat n"
    and "(c, u) \<in> set (yielded (combinations array n True)) \<Longrightarrow>
         length c = nat n \<and> (\<exists>un. u = Some un \<and> mset c + mset un = mset array)"
proof -
  show "thrown (combinations array n True) = None"
    unfolding combinations_def using array_combinations_valid[OF assms] by simp
  have "length (map fst (yielded (combinations array n True))) = length array choose nat n"
    by (simp only: chosen_combinations[OF assms] length_filter_length_subseqs)
  then show "length (yielded (combinations array n True)) = length array choose nat n" by simp
  assume cu: "(c, u) \<in> set (yielded (combinations array n True))"
  then have "c \<in> set (map fst (yielded (combinations array n True)))" by force
  then have "length c = nat n" by (simp only: chosen_combinations[OF assms]) simp
  moreover have "\<exists>un. u = Some un \<and> mset c + mset un = mset array"
    using unused_array_combinations[OF assms, of c u "[]"] cu by (simp add: combinations_def)
  ultimately show "length c = nat n \<and> (\<exists>un. u = Some un \<and> mset c + mset un = mset array)" ..
qed

subsection \<open>Traces of \<open>array_partitions\<close>\<close>

lemma array_partitions_rec:
  "sizes \<noteq> [] \<Longrightarrow> array_partitions array (size0 # sizes) =
     for_of (combinations array size0 True)
       (\<lambda>(c, unused). case unused of
            Some unused \<Rightarrow> prefix c (array_partitions unused sizes)
          | None \<Rightarrow> throw TypeError)"
  by (cases sizes) simp_all

lemma array_partitions_valid:
  "sizes \<noteq> [] \<Longrightarrow> \<forall>s \<in> set (butlast sizes). 1 \<le> s \<Longrightarrow> 0 \<le> last sizes \<Longrightarrow>
   sum_list sizes = int (length array) \<Longrightarrow>
     thrown (array_partitions array sizes) = None
     \<and> length (yielded (array_partitions array sizes)) * prod_list (map (\<lambda>s. fact (nat s)) sizes)
         = fact (length array)
     \<and> (\<forall>p \<in> set (yielded (array_partitions array sizes)).
           map length p = map nat sizes \<and> mset (concat p) = mset array)"
proof (induction sizes arbitrary: array)
  case Nil
  then show ?case by simp
next
  case (Cons size0 sizes)
  show ?case
  proof (cases sizes)
    case Nil
    then show ?thesis using Cons.prems by (simp add: thrown_simps yielded_simps)
  next
    case (Cons size1 sizes')
    let ?n = "length array"
    let ?g = "combinations array size0 True"
    let ?body = "\<lambda>(c, unused). case unused of
            Some unused \<Rightarrow> prefix c (array_partitions unused sizes)
          | None \<Rightarrow> throw TypeError"
    let ?P = "prod_list (map (\<lambda>s. fact (nat s)) sizes) :: nat"
    have s0: "1 \<le> size0" using Cons.prems(2) Cons by simp
    have rest: "sizes \<noteq> []" "\<forall>s \<in> set (butlast sizes). 1 \<le> s" "0 \<le> last sizes"
      using Cons.prems Cons by auto
    have eq: "array_partitions array (size0 # sizes) = for_of ?g ?body"
      by (rule array_partitions_rec[OF rest(1)])
    have "0 \<le> sum_list sizes" using rest
    proof -
      have "sizes = butlast sizes @ [last sizes]" using rest(1) by simp
      then have "sum_list sizes = sum_list (butlast sizes) + last sizes"
        by (metis sum_list.Cons sum_list.Nil sum_list_append add.right_neutral)
      moreover have "0 \<le> sum_list (butlast sizes)" using rest(2) by (intro sum_list_nonneg) force
      ultimately show ?thesis using rest(3) by simp
    qed
    then have s0': "size0 \<le> int ?n" using Cons.prems(4) by simp
    note g = combinations_unused[OF s0 s0']
    have sum_rest: "sum_list sizes = int (?n - nat size0)" using Cons.prems(4) s0 s0' by simp
    have each: "\<exists>un. u = Some un \<and> length c = nat size0 \<and> mset c + mset un = mset array
          \<and> thrown (array_partitions un sizes) = None
          \<and> length (yielded (array_partitions un sizes)) * ?P = fact (?n - nat size0)
          \<and> (\<forall>p \<in> set (yielded (array_partitions un sizes)).
               map length p = map nat sizes \<and> mset (concat p) = mset un)"
      if "(c, u) \<in> set (yielded ?g)" for c u
    proof -
      from g(3)[OF that] obtain un where un: "u = Some un" "length c = nat size0"
        "mset c + mset un = mset array" by blast
      from un(3) have "size (mset c) + size (mset un) = size (mset array)"
        by (metis size_union)
      then have "length un = ?n - nat size0" using un(2) by simp
      with sum_rest have "sum_list sizes = int (length un)" by simp
      from Cons.IH[OF rest this] un \<open>length un = ?n - nat size0\<close> show ?thesis by simp
    qed
    have ok: "\<forall>x \<in> set (yielded ?g). thrown (?body x) = None"
      using each by (fastforce simp: thrown_prefix)
    note fo = for_of_ok[OF g(1) ok]
    have 1: "thrown (array_partitions array (size0 # sizes)) = None"
      by (simp only: eq fo thrown_simps)
    have "\<forall>x \<in> set (yielded ?g). length (yielded (?body x)) * ?P = fact (?n - nat size0)"
      using each by (fastforce simp: yielded_prefix)
    from sum_list_const_mult[OF this]
    have "length (yielded (array_partitions array (size0 # sizes))) * ?P
        = (?n choose nat size0) * fact (?n - nat size0)"
      by (simp only: eq fo yielded_simps length_concat map_map o_def g(2))
    then have "length (yielded (array_partitions array (size0 # sizes)))
         * prod_list (map (\<lambda>s. fact (nat s)) (size0 # sizes))
        = fact (nat size0) * fact (?n - nat size0) * (?n choose nat size0)"
      by (simp add: algebra_simps)
    also have "\<dots> = fact ?n" using s0 s0' by (intro binomial_fact_lemma) simp
    finally have 2: "length (yielded (array_partitions array (size0 # sizes)))
         * prod_list (map (\<lambda>s. fact (nat s)) (size0 # sizes)) = fact ?n" .
    have 3: "map length p = map nat (size0 # sizes) \<and> mset (concat p) = mset array"
      if "p \<in> set (yielded (array_partitions array (size0 # sizes)))" for p
    proof -
      from that obtain c u where cu: "(c, u) \<in> set (yielded ?g)" "p \<in> set (yielded (?body (c, u)))"
        by (auto simp only: eq fo yielded_simps set_concat set_map)
      from each[OF cu(1)] obtain un where un: "u = Some un" "length c = nat size0"
        "mset c + mset un = mset array"
        "\<forall>p \<in> set (yielded (array_partitions un sizes)).
               map length p = map nat sizes \<and> mset (concat p) = mset un" by blast
      from cu(2) un(1) obtain q where q: "p = c # q" "q \<in> set (yielded (array_partitions un sizes))"
        by (auto simp: yielded_prefix)
      with un show ?thesis by auto
    qed
    from 1 2 3 show ?thesis by blast
  qed
qed

subsection \<open>Renaming the pool: outputs are projections of position vectors\<close>

lemma itermap_simps:
  "itermap (throw e) k = throw e"
  "itermap (yield_all xs) k = yield_all (map k xs)"
  "itermap (then_gen a b) k = then_gen (itermap a k) (itermap b k)"
  "itermap (itermap g h) k' = itermap g (k' \<circ> h)"
  by (simp_all add: itermap_def throw_def yield_all_def then_gen_def split: option.splits)

lemma itermap_prefix_combination:
  "itermap (prefix_combination item g) (\<lambda>(c, un). (map f c, map_option (map f) un))
     = prefix_combination (f item) (itermap g (\<lambda>(c, un). (map f c, map_option (map f) un)))"
  by (simp add: prefix_combination_def itermap_def case_prod_beta)

lemma toSpliced_map: "toSpliced (map f xs) i = map f (toSpliced xs i)"
  by (simp add: toSpliced_def take_map drop_map)

lemma push_map: "push (map_option (map f) u) (f item) = map_option (map f) (push u item)"
  by (cases u) (simp_all add: push_def)

lemma one_unused_map:
  "map (\<lambda>i. ([map f xs ! i], Some (map f u0 @ toSpliced (map f xs) i))) [0..<length xs]
     = map ((\<lambda>(c, un). (map f c, map_option (map f) un))
            \<circ> (\<lambda>i. ([xs ! i], Some (u0 @ toSpliced xs i)))) [0..<length xs]"
  by (rule map_cong) (simp_all add: toSpliced_map)

lemma array_combinations_map:
  "fst (array_combinations (map f xs) n (map_option (map f) u))
     = itermap (fst (array_combinations xs n u)) (\<lambda>(c, un). (map f c, map_option (map f) un))"
proof (induction xs arbitrary: n u)
  case Nil
  then show ?case by (simp add: itermap_simps array_combinations.simps)
next
  case (Cons item rest)
  consider "n \<le> 0 \<or> int (length (item # rest)) < n" | "n = 1"
    | "1 < n" "n = int (length (item # rest))" | "1 < n" "n < int (length (item # rest))"
    by linarith
  then show ?case
  proof cases
    case 1
    then have "n \<le> 0 \<or> int (length (map f (item # rest))) < n" by simp
    then show ?thesis using 1
      by (simp only: array_combinations_invalid fst_conv itermap_simps)
  next
    case 2
    show ?thesis
    proof (cases u)
      case None
      then show ?thesis using 2
        by (simp add: array_combinations_one[of "item # rest"]
            array_combinations_one[of "f item # map f rest"] itermap_simps o_def)
    next
      case (Some u0)
      have ne: "item # rest \<noteq> []" "map f (item # rest) \<noteq> []" by simp_all
      show ?thesis
        by (simp only: Some 2 option.map array_combinations_one_unused[OF ne(1)]
            array_combinations_one_unused[OF ne(2)] itermap_simps map_map length_map
            one_unused_map)
    qed
  next
    case 3
    then have "n = int (length (map f (item # rest)))" by simp
    from array_combinations_all[OF 3(1) this] array_combinations_all[OF 3]
    show ?thesis by (simp add: itermap_simps)
  next
    case 4
    then have n4: "n < int (length (f item # map f rest))" by simp
    show ?thesis
      by (simp only: list.map array_combinations_rec[OF 4(1) n4] array_combinations_rec[OF 4]
          itermap_simps itermap_prefix_combination Cons.IH push_map)
  qed
qed

lemma combinations_map:
  "combinations (map f xs) n True
     = itermap (combinations xs n True) (\<lambda>(c, un). (map f c, map_option (map f) un))"
  using array_combinations_map[of f xs n "Some []"] by (simp add: combinations_def)

lemma for_array_map: "for_array (map h xs) body = for_array xs (body \<circ> h)"
  by (induction xs) simp_all

lemma itermap_for_array: "itermap (for_array xs body) k = for_array xs (\<lambda>x. itermap (body x) k)"
  by (induction xs) (simp_all add: itermap_simps, simp add: itermap_def)

lemma for_of_itermap: "for_of (itermap g h) body = for_of g (body \<circ> h)"
  by (simp add: for_of_def itermap_def for_array_map)

lemma itermap_for_of: "itermap (for_of g body) k = for_of g (\<lambda>x. itermap (body x) k)"
  by (simp add: for_of_def itermap_simps itermap_for_array) (simp add: itermap_def)

lemma itermap_prefix: "itermap (prefix c g) (map f) = prefix (f c) (itermap g (map f))"
  by (simp add: prefix_def itermap_def)

lemma array_partitions_map:
  "array_partitions (map f xs) sizes = itermap (array_partitions xs sizes) (map (map f))"
proof (induction sizes arbitrary: xs)
  case Nil
  then show ?case by (simp add: itermap_simps)
next
  case (Cons size0 sizes)
  show ?case
  proof (cases "sizes = []")
    case True
    then show ?thesis by (simp add: itermap_simps)
  next
    case False
    have "(\<lambda>(c, unused). case unused of
            Some unused \<Rightarrow> prefix c (array_partitions unused sizes)
          | None \<Rightarrow> throw TypeError) \<circ> (\<lambda>(c, un). (map f c, map_option (map f) un))
       = (\<lambda>x. itermap ((\<lambda>(c, unused). case unused of
            Some unused \<Rightarrow> prefix c (array_partitions unused sizes)
          | None \<Rightarrow> throw TypeError) x) (map (map f)))"
      by (auto simp: fun_eq_iff Cons.IH itermap_prefix itermap_simps split: option.splits)
    then show ?thesis
      by (simp only: array_partitions_rec[OF False] combinations_map for_of_itermap itermap_for_of)
  qed
qed

lemma partitions_positions:
  "yielded (partitions pool sizes)
     = map (map (map ((!) pool))) (yielded (partitions [0..<length pool] sizes))"
proof -
  have "partitions pool sizes = partitions (map ((!) pool) [0..<length pool]) sizes"
    by (simp only: map_nth)
  then show ?thesis
    by (simp only: partitions_def array_partitions_map yielded_simps)
qed

lemma disjoint_groups:
  "distinct (concat p) \<Longrightarrow> i < j \<Longrightarrow> j < length p \<Longrightarrow> set (p ! i) \<inter> set (p ! j) = {}"
proof (induction p arbitrary: i j)
  case Nil
  then show ?case by simp
next
  case (Cons g p)
  show ?case
  proof (cases i)
    case 0
    with Cons.prems obtain j' where j': "j = Suc j'" "j' < length p" by (cases j) auto
    then have "p ! j' \<in> set p" by simp
    then have "set (p ! j') \<subseteq> set (concat p)" by auto
    with Cons.prems(1) 0 j' show ?thesis by auto
  next
    case (Suc i')
    with Cons.prems obtain j' where j': "j = Suc j'" "j' < length p" "i' < j'" by (cases j) auto
    with Cons.IH[of i' j'] Cons.prems(1) Suc show ?thesis by simp
  qed
qed


subsection \<open>Claims about \<open>combinations\<close>\<close>

text \<open>
  Claim C6. \<open>combinations(pool, r)\<close> throws a RangeError before it yields anything
  exactly when \<open>r \<le> 0\<close> or \<open>r > |pool|\<close>, and when \<open>1 \<le> r \<le> |pool|\<close> the whole
  enumeration runs without an exception (with and without \<open>return_unused\<close>).
\<close>

theorem combinations_range_error:
  "(r \<le> 0 \<or> int (length pool) < r) = (combinations pool r return_unused = throw RangeError)
   \<and> (1 \<le> r \<and> r \<le> int (length pool)) = (thrown (combinations pool r return_unused) = None)"
proof (cases "r \<le> 0 \<or> int (length pool) < r")
  case True
  then show ?thesis
    by (auto simp: combinations_def array_combinations_invalid thrown_simps)
next
  case False
  then have v: "1 \<le> r" "r \<le> int (length pool)" by auto
  have "thrown (combinations pool r return_unused) = None"
    unfolding combinations_def using array_combinations_valid[OF v] by simp
  moreover from this have "combinations pool r return_unused \<noteq> throw RangeError"
    by (auto simp: thrown_simps)
  ultimately show ?thesis using v False by simp
qed

text \<open>
  Claim C1, amended to \<open>1 \<le> r \<le> n\<close>. The enumeration does not throw; it yields
  \<open>n! / (r! (n - r)!)\<close> outputs; each output is the projection through the pool of an
  index vector of length \<open>r\<close> with strictly increasing positions below \<open>n\<close>; the
  index vectors are pairwise distinct as sets and come in strictly increasing
  lexicographic order; and \<open>combinations([a,b,c,d], 2)\<close> yields the six pairs in the
  stated order.
\<close>

theorem combinations_enumeration:
  assumes "1 \<le> r" "r \<le> int (length pool)"
  shows "thrown (combinations pool r False) = None
    \<and> length (yielded (combinations pool r False))
        = (fact (length pool) :: nat) div (fact (nat r) * fact (length pool - nat r))
    \<and> map fst (yielded (combinations pool r False))
        = map (map ((!) pool)) (index_vectors (length pool) r)
    \<and> (\<forall>c \<in> set (index_vectors (length pool) r).
          length c = nat r \<and> sorted_wrt (<) c \<and> set c \<subseteq> {0..<length pool})
    \<and> distinct (map set (index_vectors (length pool) r))
    \<and> sorted_wrt (lexordp (<)) (index_vectors (length pool) r)
    \<and> combinations [a, b, c, d] 2 False
        = yield_all [([a, b], None), ([a, c], None), ([a, d], None),
                     ([b, c], None), ([b, d], None), ([c, d], None)]"
proof -
  let ?n = "length pool"
  have r: "nat r \<le> ?n" using assms by simp
  have iv: "index_vectors ?n r = filter (\<lambda>c. length c = nat r) (subseqs [0..<?n])"
    using assms by (rule index_vectors_eq)
  have 1: "thrown (combinations pool r False) = None"
    unfolding combinations_def using array_combinations_valid[OF assms] by simp
  have "length (yielded (combinations pool r False)) = length (map fst (yielded (combinations pool r False)))"
    by simp
  also have "\<dots> = ?n choose nat r"
    by (simp only: chosen_combinations[OF assms] length_filter_length_subseqs)
  also have "\<dots> = fact ?n div (fact (nat r) * fact (?n - nat r))"
    using r by (rule binomial_fact')
  finally have 2: "length (yielded (combinations pool r False))
        = (fact ?n :: nat) div (fact (nat r) * fact (?n - nat r))" .
  have "pool = map ((!) pool) [0..<?n]" by (simp add: map_nth)
  then have "subseqs pool = map (map ((!) pool)) (subseqs [0..<?n])"
    by (metis subseqs_map)
  then have 3: "map fst (yielded (combinations pool r False)) = map (map ((!) pool)) (index_vectors ?n r)"
    by (simp only: chosen_combinations[OF assms] iv filter_map o_def length_map)
  have 4: "\<forall>c \<in> set (index_vectors ?n r).
          length c = nat r \<and> sorted_wrt (<) c \<and> set c \<subseteq> {0..<?n}"
    using sorted_wrt_subseqs[of "(<)" "[0..<?n]"] by (auto simp: iv)
  have 5: "distinct (map set (index_vectors ?n r))"
    by (simp only: iv) (rule distinct_sets_filter_subseqs, simp)
  have 6: "sorted_wrt (lexordp (<)) (index_vectors ?n r)"
    by (simp only: iv) (rule lexordp_filter_length_subseqs, simp)
  have 7: "combinations [a, b, c, d] 2 False
        = yield_all [([a, b], None), ([a, c], None), ([a, d], None),
                     ([b, c], None), ([b, d], None), ([c, d], None)]"
    by (simp add: combinations_def array_combinations.simps yield_all_def throw_def thrown_def
        prefix_combination_def itermap_def then_gen_def push_def pop_def)
  from 1 2 3 4 5 6 7 show ?thesis by blast
qed

theorem combinations_enumeration_witness:
  "1 \<le> (2::int) \<and> 2 \<le> int (length [10, 20, 30::nat])
   \<and> thrown (combinations [10, 20, 30::nat] 2 False) = None
   \<and> length (yielded (combinations [10, 20, 30::nat] 2 False)) = 3
   \<and> map fst (yielded (combinations [10, 20, 30::nat] 2 False))
        = map (map ((!) [10, 20, 30])) (index_vectors 3 2)
   \<and> index_vectors 3 2 = [[0, 1], [0, 2], [1, 2]]
   \<and> distinct (map set (index_vectors 3 2))
   \<and> sorted_wrt (lexordp (<)) (index_vectors 3 2)"
proof -
  have iv: "index_vectors 3 2 = [[0, 1], [0, 2], [1, 2]]"
    by (simp add: index_vectors_def combinations_def array_combinations.simps yield_all_def
        throw_def thrown_def yielded_def prefix_combination_def itermap_def then_gen_def
        push_def pop_def upt_rec)
  have h1: "1 \<le> (2::int)" and h2: "2 \<le> int (length [10, 20, 30::nat])" by simp_all
  have n: "length [10, 20, 30::nat] = 3" "nat 2 = 2" by simp_all
  have f: "(fact 3 :: nat) div (fact 2 * fact (3 - 2)) = 3" by (simp add: fact_numeral)
  note t = combinations_enumeration[of 2 "[10, 20, 30::nat]" "1::nat" 2 3 4, OF h1 h2, unfolded n f]
  from t h1 h2 iv show ?thesis by - (elim conjE, intro conjI, assumption+)
qed

text \<open>
  At \<open>r = 0\<close> the claim as stated asks for \<open>2! / (0! 2!) = 1\<close> output from a pool of two;
  the guard of \<open>array_combinations\<close> throws instead and nothing is yielded.
\<close>

theorem combinations_r0_counterexample:
  "combinations [1::nat, 2] 0 False = throw RangeError
   \<and> length (yielded (combinations [1::nat, 2] 0 False)) \<noteq> fact 2 div (fact 0 * fact (2 - 0))"
  by (simp add: combinations_def array_combinations.simps throw_def yielded_def)

subsection \<open>Claims about \<open>partitions\<close>\<close>




text \<open>
  Claim C9. A size vector of length at least two whose first entry is \<open>\<le> 0\<close> makes
  \<open>partitions\<close> throw the RangeError of \<open>combinations\<close> before any output, whatever
  the pool and also when the sizes sum to its length: \<open>partitions([1,2],[0,2])\<close> throws,
  while \<open>partitions([1,2],[2,0])\<close> yields the single partition \<open>[[1,2],[]]\<close>.
\<close>

theorem partitions_nonpositive_first_size:
  "2 \<le> length sizes \<Longrightarrow> hd sizes \<le> 0 \<Longrightarrow>
     partitions pool sizes = throw RangeError
     \<and> partitions [1::nat, 2] [0, 2] = throw RangeError
     \<and> partitions [1::nat, 2] [2, 0] = yield_all [[[1, 2], []]]"
proof -
  assume a: "2 \<le> length sizes" "hd sizes \<le> 0"
  define size0 where "size0 = hd sizes"
  define rest where "rest = tl sizes"
  have s: "sizes = size0 # rest" "rest \<noteq> []" "size0 \<le> 0"
    using a by (cases sizes; force simp: size0_def rest_def)+
  have "combinations pool size0 True = throw RangeError"
    using s(3) by (simp add: combinations_def array_combinations_invalid)
  then have 1: "partitions pool sizes = throw RangeError"
    by (simp only: partitions_def s(1) array_partitions_rec[OF s(2)] for_of_throw)
  have 2: "partitions [1::nat, 2] [0, 2] = throw RangeError"
    by (simp add: partitions_def combinations_def array_combinations.simps for_of_throw)
  have 3: "partitions [1::nat, 2] [2, 0] = yield_all [[[1, 2], []]]"
    by (simp add: partitions_def combinations_def array_combinations.simps for_of_def
        yield_all_def then_gen_def prefix_def itermap_def)
  from 1 2 3 show ?thesis by blast
qed

theorem partitions_nonpositive_first_size_witness:
  "2 \<le> length [0, 3::int] \<and> hd [0, 3::int] \<le> 0 \<and> sum_list [0, 3] = int (length ''abc'')
   \<and> partitions ''abc'' [0, 3] = throw RangeError"
  using partitions_nonpositive_first_size[of "[0, 3]" "''abc''"] by simp

text \<open>
  Claim C3, amended to size vectors that are non-empty, have every entry but the last
  \<open>\<ge> 1\<close> and the last \<open>\<ge> 0\<close>, and sum to the length of the pool. The enumeration does
  not throw and yields \<open>|pool|! / \<Prod> sizes[i]!\<close> outputs. Every output is the projection
  through the pool of a partition of the positions \<open>[0..<n]\<close> whose groups have the
  lengths given by \<open>sizes\<close>, are pairwise disjoint, and together list every position
  exactly once; so the groups of an output hold exactly the items of the pool.
  \<open>partitions([1,2,3,4],[2,2])\<close> yields six items, from \<open>[[1,2],[3,4]]\<close> to
  \<open>[[3,4],[1,2]]\<close>.
\<close>

theorem partitions_enumeration:
  assumes "sizes \<noteq> []" "\<forall>s \<in> set (butlast sizes). 1 \<le> s" "0 \<le> last sizes"
    and "sum_list sizes = int (length pool)"
  shows "thrown (partitions pool sizes) = None
    \<and> length (yielded (partitions pool sizes))
        = (fact (length pool) :: nat) div prod_list (map (\<lambda>s. fact (nat s)) sizes)
    \<and> yielded (partitions pool sizes)
        = map (map (map ((!) pool))) (yielded (partitions [0..<length pool] sizes))
    \<and> (\<forall>p \<in> set (yielded (partitions [0..<length pool] sizes)).
          map length p = map nat sizes
          \<and> (\<forall>i j. i < j \<and> j < length p \<longrightarrow> set (p ! i) \<inter> set (p ! j) = {})
          \<and> distinct (concat p)
          \<and> set (concat p) = {0..<length pool})
    \<and> (\<forall>p \<in> set (yielded (partitions pool sizes)).
          map length p = map nat sizes \<and> mset (concat p) = mset pool)
    \<and> partitions [1::nat, 2, 3, 4] [2, 2]
        = yield_all [[[1, 2], [3, 4]], [[1, 3], [2, 4]], [[1, 4], [2, 3]],
                     [[2, 3], [1, 4]], [[2, 4], [1, 3]], [[3, 4], [1, 2]]]"
proof -
  let ?n = "length pool"
  let ?P = "prod_list (map (\<lambda>s. fact (nat s)) sizes) :: nat"
  note v = array_partitions_valid[OF assms(1-3), of pool, OF assms(4)]
  have len: "sum_list sizes = int (length [0..<?n])" using assms(4) by simp
  note vi = array_partitions_valid[OF assms(1-3), of "[0..<?n]", OF len]
  have 1: "thrown (partitions pool sizes) = None" using v by (simp add: partitions_def)
  have "0 < ?P" by (induction sizes) simp_all
  moreover have "length (yielded (partitions pool sizes)) * ?P = fact ?n"
    using v by (simp add: partitions_def)
  ultimately have 2: "length (yielded (partitions pool sizes)) = (fact ?n :: nat) div ?P"
    by (metis nonzero_mult_div_cancel_right less_numeral_extra(3))
  note 3 = partitions_positions[of pool sizes]
  have 4: "map length p = map nat sizes
          \<and> (\<forall>i j. i < j \<and> j < length p \<longrightarrow> set (p ! i) \<inter> set (p ! j) = {})
          \<and> distinct (concat p)
          \<and> set (concat p) = {0..<?n}"
    if "p \<in> set (yielded (partitions [0..<?n] sizes))" for p
  proof -
    from vi that have p: "map length p = map nat sizes" "mset (concat p) = mset [0..<?n]"
      by (simp_all add: partitions_def)
    from p(2) have d: "distinct (concat p)" by (metis distinct_upt mset_eq_imp_distinct_iff)
    from p(2) have "set (concat p) = set [0..<?n]" by (rule mset_eq_setD)
    with p(1) d disjoint_groups[OF d] show ?thesis by auto
  qed
  have 5: "\<forall>p \<in> set (yielded (partitions pool sizes)).
          map length p = map nat sizes \<and> mset (concat p) = mset pool"
    using v by (simp add: partitions_def)
  have 6: "partitions [1::nat, 2, 3, 4] [2, 2]
        = yield_all [[[1, 2], [3, 4]], [[1, 3], [2, 4]], [[1, 4], [2, 3]],
                     [[2, 3], [1, 4]], [[2, 4], [1, 3]], [[3, 4], [1, 2]]]"
    by (simp add: partitions_def combinations_def array_combinations.simps for_of_def
        yield_all_def then_gen_def prefix_def itermap_def prefix_combination_def thrown_def
        throw_def push_def pop_def toSpliced_def)
  from 1 2 3 4 5 6 show ?thesis by blast
qed

theorem partitions_enumeration_witness:
  "[2, 1] \<noteq> ([] :: int list) \<and> 1 \<le> hd [2, 1::int] \<and> 0 \<le> last [2, 1::int]
   \<and> sum_list [2, 1] = int (length ''abc'')
   \<and> thrown (partitions ''abc'' [2, 1]) = None
   \<and> length (yielded (partitions ''abc'' [2, 1])) = 3
   \<and> yielded (partitions ''abc'' [2, 1])
        = map (map (map ((!) ''abc''))) (yielded (partitions [0..<3] [2, 1]))
   \<and> yielded (partitions [0..<3] [2, 1]) = [[[0, 1], [2]], [[0, 2], [1]], [[1, 2], [0]]]"
proof -
  have h: "[2, 1] \<noteq> ([] :: int list)" "\<forall>s \<in> set (butlast [2, 1::int]). 1 \<le> s"
    "0 \<le> last [2, 1::int]" "sum_list [2, 1] = int (length ''abc'')" by simp_all
  have n: "length ''abc'' = 3" by simp
  have f: "(fact 3 :: nat) div prod_list (map (\<lambda>s. fact (nat s)) [2, 1]) = 3"
    by (simp add: fact_numeral)
  have e: "yielded (partitions [0..<3] [2, 1]) = [[[0, 1], [2]], [[0, 2], [1]], [[1, 2], [0]]]"
    by (simp add: partitions_def combinations_def array_combinations.simps for_of_def
        yield_all_def then_gen_def prefix_def itermap_def prefix_combination_def thrown_def
        throw_def push_def pop_def toSpliced_def yielded_def upt_rec)
  note t = partitions_enumeration[OF h, unfolded n f]
  from t h(1,3,4) e show ?thesis by - (elim conjE, intro conjI, simp_all)
qed

text \<open>
  The sizes \<open>[0, 2]\<close> sum to the length of the pool \<open>[1, 2]\<close> and the claim as stated asks
  for \<open>2! / (0! 2!) = 1\<close> output; \<open>combinations\<close> rejects the size 0 and nothing is yielded.
\<close>

theorem partitions_zero_size_counterexample:
  "sum_list [0, 2] = int (length [1::nat, 2])
   \<and> partitions [1::nat, 2] [0, 2] = throw RangeError
   \<and> length (yielded (partitions [1::nat, 2] [0, 2]))
       \<noteq> fact (length [1::nat, 2]) div prod_list (map (\<lambda>s. fact (nat s)) [0, 2])"
  by (simp add: partitions_def combinations_def array_combinations.simps for_of_throw
      yielded_simps)

section \<open>Results for \<open>permutations\<close>\<close>

lemma splice_in_splice_out:
  "i < length array \<Longrightarrow> splice_in (splice_out array i) i (array ! i) = array"
  by (simp add: splice_in_def splice_out_def min_def id_take_nth_drop[symmetric])

lemma array_permutations_restores:
  "snd (array_permutations array) = array"
  "snd (permutations_loop i array) = array"
proof (induction array and i array rule: array_permutations_permutations_loop.induct)
  case (1 array)
  then show ?case by (simp add: array_permutations.simps)
next
  case (2 i array)
  show ?case
  proof (cases "i < length array")
    case True
    have a: "snd (array_permutations (splice_out array i)) = splice_out array i"
      by (rule "2.IH"(1)[OF True refl refl])
    have "snd (permutations_loop (i + 1)
            (splice_in (snd (array_permutations (splice_out array i))) i (array ! i)))
          = splice_in (snd (array_permutations (splice_out array i))) i (array ! i)"
      by (rule "2.IH"(2)[OF True refl refl refl prod.collapse refl])
    then show ?thesis using True a
      by (subst permutations_loop.simps) (simp add: Let_def case_prod_beta splice_in_splice_out)
  next
    case False
    then show ?thesis by (subst permutations_loop.simps) simp
  qed
qed

lemma permutations_loop_step:
  "i < length array \<Longrightarrow> fst (permutations_loop i array)
     = map ((#) (array ! i)) (fst (array_permutations (splice_out array i)))
       @ fst (permutations_loop (Suc i) array)"
  by (subst permutations_loop.simps)
    (simp add: Let_def case_prod_beta array_permutations_restores splice_in_splice_out)

lemma permutations_loop_end:
  "length array \<le> i \<Longrightarrow> fst (permutations_loop i array) = []"
  by (subst permutations_loop.simps) simp

lemma permutations_loop_eq:
  "fst (permutations_loop i array)
     = concat (map (\<lambda>j. map ((#) (array ! j)) (fst (array_permutations (splice_out array j))))
                   [i..<length array])"
proof (induction "length array - i" arbitrary: i)
  case 0
  then show ?case by (simp add: permutations_loop_end)
next
  case (Suc k)
  then have i: "i < length array" and k: "k = length array - Suc i" by simp_all
  show ?case
    by (simp only: permutations_loop_step[OF i] Suc.hyps(1)[OF k] upt_conv_Cons[OF i]
        list.map concat.simps)
qed

lemma array_permutations_eq:
  "fst (array_permutations array)
     = (if length array \<le> 1 then [array]
        else concat (map (\<lambda>j. map ((#) (array ! j)) (fst (array_permutations (splice_out array j))))
                         [0..<length array]))"
  by (subst array_permutations.simps) (simp add: permutations_loop_eq)

lemma length_array_permutations:
  "length (fst (array_permutations array)) = fact (length array)"
proof (induction "length array" arbitrary: array rule: less_induct)
  case less
  show ?case
  proof (cases "length array \<le> 1")
    case True
    then have "length array = 0 \<or> length array = 1" by linarith
    then show ?thesis using True by (subst array_permutations_eq) auto
  next
    case False
    then obtain m where m: "length array = Suc m" by (cases "length array") auto
    have each: "length (fst (array_permutations (splice_out array j))) = fact m"
      if "j < length array" for j
      using less[of "splice_out array j"] that m by (simp add: length_splice_out)
    have "length (fst (array_permutations array))
        = sum_list (map (\<lambda>j. length (fst (array_permutations (splice_out array j)))) [0..<length array])"
      using False by (subst array_permutations_eq) (simp add: length_concat o_def)
    also have "\<dots> = sum_list (map (\<lambda>j. fact m) [0..<length array])"
      by (rule arg_cong[where f = sum_list], rule map_cong) (simp_all add: each)
    also have "\<dots> = fact (length array)" by (simp add: sum_list_triv m)
    finally show ?thesis .
  qed
qed

lemma distinct_concat_heads:
  "distinct js \<Longrightarrow> inj_on h (set js) \<Longrightarrow> \<forall>j \<in> set js. distinct (f j) \<Longrightarrow>
     distinct (concat (map (\<lambda>j. map ((#) (h j)) (f j)) js))"
proof (induction js)
  case Nil
  then show ?case by simp
next
  case (Cons j js)
  then have "h j \<notin> h ` set js" by auto
  then have "set (map ((#) (h j)) (f j)) \<inter> set (concat (map (\<lambda>j. map ((#) (h j)) (f j)) js)) = {}"
    by auto
  with Cons show ?case by (simp add: distinct_map)
qed

lemma mset_splice_out:
  "j < length array \<Longrightarrow> add_mset (array ! j) (mset (splice_out array j)) = mset array"
  using mset_toSpliced[of j array] by (simp add: splice_out_def toSpliced_def)

lemma array_permutations_distinct:
  "distinct array \<Longrightarrow> distinct (fst (array_permutations array))
     \<and> (\<forall>p \<in> set (fst (array_permutations array)). mset p = mset array)"
proof (induction "length array" arbitrary: array rule: less_induct)
  case less
  show ?case
  proof (cases "length array \<le> 1")
    case True
    then show ?thesis by (subst (1 2) array_permutations_eq) simp
  next
    case False
    let ?f = "\<lambda>j. fst (array_permutations (splice_out array j))"
    have d: "distinct (splice_out array j)" for j
      using less.prems by (simp add: splice_out_def set_take_disj_set_drop_if_distinct)
    have each: "distinct (?f j) \<and> (\<forall>p \<in> set (?f j). mset p = mset (splice_out array j))"
      if "j < length array" for j
      using less.hyps[of "splice_out array j"] that d by (simp add: length_splice_out)
    have "inj_on ((!) array) (set [0..<length array])"
      using less.prems by (simp add: inj_on_nth)
    then have 1: "distinct (concat (map (\<lambda>j. map ((#) (array ! j)) (?f j)) [0..<length array]))"
      using each by (intro distinct_concat_heads) simp_all
    have 2: "mset p = mset array"
      if "p \<in> set (concat (map (\<lambda>j. map ((#) (array ! j)) (?f j)) [0..<length array]))" for p
    proof -
      from that obtain j q where j: "j < length array" "q \<in> set (?f j)" "p = array ! j # q"
        by auto
      with each[OF j(1)] have "mset p = add_mset (array ! j) (mset (splice_out array j))" by simp
      then show ?thesis by (simp only: mset_splice_out[OF j(1)])
    qed
    from 1 2 False show ?thesis by (subst (1 2) array_permutations_eq) simp
  qed
qed

lemma splice_out_map: "splice_out (map f array) j = map f (splice_out array j)"
  by (simp add: splice_out_def take_map drop_map)

lemma array_permutations_map:
  "fst (array_permutations (map f array)) = map (map f) (fst (array_permutations array))"
proof (induction "length array" arbitrary: array rule: less_induct)
  case less
  show ?case
  proof (cases "length array \<le> 1")
    case True
    then show ?thesis by (subst (1 2) array_permutations_eq) simp
  next
    case False
    have m: "map (\<lambda>j. map ((#) (map f array ! j)) (fst (array_permutations (splice_out (map f array) j))))
              [0..<length array]
        = map (\<lambda>j. map (map f) (map ((#) (array ! j)) (fst (array_permutations (splice_out array j)))))
              [0..<length array]"
      by (rule map_cong) (simp_all add: splice_out_map less length_splice_out)
    have "fst (array_permutations (map f array))
        = concat (map (\<lambda>j. map ((#) (map f array ! j))
                    (fst (array_permutations (splice_out (map f array) j)))) [0..<length array])"
      using False by (subst array_permutations_eq) simp
    also have "\<dots> = map (map f) (concat (map (\<lambda>j. map ((#) (array ! j))
                    (fst (array_permutations (splice_out array j)))) [0..<length array]))"
      by (simp only: m map_concat map_map o_def)
    also have "\<dots> = map (map f) (fst (array_permutations array))"
      using False by (subst (2) array_permutations_eq) simp
    finally show ?thesis .
  qed
qed

text \<open>
  Claim C2, amended: \<open>permutations\<close> has no length parameter \<open>r\<close>. For every pool of size
  \<open>n\<close> it yields \<open>n!\<close> outputs and does not throw; every output is the projection through
  the pool of a permutation of the positions \<open>[0..<n]\<close>, and these position tuples are
  pairwise distinct; the array is left as it was found; and \<open>permutations([1,2,3])\<close>
  yields the six orderings in the stated order.
\<close>

theorem permutations_enumeration:
  "thrown (permutations pool) = None
   \<and> length (yielded (permutations pool)) = fact (length pool)
   \<and> yielded (permutations pool)
       = map (map ((!) pool)) (yielded (permutations [0..<length pool]))
   \<and> distinct (yielded (permutations [0..<length pool]))
   \<and> (\<forall>p \<in> set (yielded (permutations [0..<length pool])). mset p = mset [0..<length pool])
   \<and> snd (array_permutations pool) = pool
   \<and> permutations [1::nat, 2, 3]
       = yield_all [[1, 2, 3], [1, 3, 2], [2, 1, 3], [2, 3, 1], [3, 1, 2], [3, 2, 1]]"
proof -
  have "fst (array_permutations pool) = fst (array_permutations (map ((!) pool) [0..<length pool]))"
    by (simp only: map_nth)
  then have 3: "yielded (permutations pool)
       = map (map ((!) pool)) (yielded (permutations [0..<length pool]))"
    by (simp only: permutations_def yielded_simps array_permutations_map)
  have 7: "permutations [1::nat, 2, 3]
       = yield_all [[1, 2, 3], [1, 3, 2], [2, 1, 3], [2, 3, 1], [3, 1, 2], [3, 2, 1]]"
    by code_simp
  from 3 7 array_permutations_distinct[of "[0..<length pool]"] show ?thesis
    by (simp add: permutations_def thrown_simps yielded_simps length_array_permutations
        array_permutations_restores)
qed

theorem permutations_enumeration_witness:
  "yielded (permutations ''abc'') = [''abc'', ''acb'', ''bac'', ''bca'', ''cab'', ''cba'']
   \<and> length (yielded (permutations ''abc'')) = fact (length ''abc'')
   \<and> thrown (permutations ''abc'') = None
   \<and> yielded (permutations ''abc'')
       = map (map ((!) ''abc'')) (yielded (permutations [0..<length ''abc'']))
   \<and> distinct (yielded (permutations [0..<length ''abc'']))"
proof -
  have e: "yielded (permutations ''abc'') = [''abc'', ''acb'', ''bac'', ''bca'', ''cab'', ''cba'']"
    by code_simp
  from permutations_enumeration[of "''abc''"] e show ?thesis
    by - (elim conjE, intro conjI, assumption+)
qed

text \<open>
  For \<open>n = 3\<close> and \<open>r = 1\<close> the claim as stated asks for \<open>3! / 2! = 3\<close> outputs; the
  generator yields all six orderings of the pool whatever second argument the call has.
\<close>

theorem permutations_r_counterexample:
  "length (yielded (permutations [1::nat, 2, 3])) = 6
   \<and> length (yielded (permutations [1::nat, 2, 3])) \<noteq> fact 3 div fact (3 - 1)"
  by (simp add: permutations_def yielded_simps length_array_permutations fact_numeral)

section \<open>Results for \<open>product\<close>\<close>

lemma array_product_eq:
  "arrays \<noteq> [] \<Longrightarrow> array_product arrays = yield_all (product_spec arrays)"
proof (induction arrays rule: array_product.induct)
  case 1
  then show ?case by simp
next
  case (2 array0)
  then show ?case by (simp add: itermap_simps)
next
  case (3 array0 v va)
  let ?rest = "v # va"
  have body: "(\<lambda>item. prefix item (array_product ?rest))
      = (\<lambda>item. yield_all (map ((#) item) (product_spec ?rest)))"
    using 3 by (simp add: prefix_def itermap_simps)
  have "for_of (yield_all array0) (\<lambda>item. yield_all (map ((#) item) (product_spec ?rest)))
      = yield_all (concat (map (\<lambda>x. yielded (yield_all (map ((#) x) (product_spec ?rest))))
          (yielded (yield_all array0))))"
    by (rule for_of_ok) (simp_all add: thrown_simps)
  then show ?case by (simp add: body yielded_simps)
qed

lemma length_product_spec:
  "arrays \<noteq> [] \<Longrightarrow> length (product_spec arrays) = prod_list (map length arrays)"
proof (induction arrays)
  case Nil
  then show ?case by simp
next
  case (Cons s rest)
  show ?case
  proof (cases rest)
    case Nil
    then show ?thesis by simp
  next
    case (Cons v va)
    with Cons.IH have "length (product_spec (v # va)) = prod_list (map length (v # va))" by simp
    then show ?thesis unfolding Cons by (simp add: length_concat o_def sum_list_triv)
  qed
qed

lemma concat_replicate_one: "concat (map (replicate (Suc 0)) a) = a"
  by (induction a) simp_all

lemma heads_product_spec:
  "rest \<noteq> [] \<Longrightarrow> map hd (product_spec (s # rest))
     = concat (map (replicate (prod_list (map length rest))) s)"
proof -
  assume r: "rest \<noteq> []"
  then obtain v va where rest: "rest = v # va" by (cases rest) auto
  have "map hd (map ((#) a) (product_spec rest)) = replicate (prod_list (map length rest)) a" for a
    using length_product_spec[OF r] by (simp add: map_replicate_const o_def)
  then show ?thesis unfolding rest by (simp add: map_concat o_def)
qed

text \<open>
  Claim C5. For \<open>k \<ge> 1\<close> finite sequences \<open>product\<close> does not throw and yields exactly
  the tuples of the recursive reference definition, in its order; there are
  \<open>\<Prod> |seq_i|\<close> of them; and the first coordinate varies slowest: it runs through the
  first sequence once, each element repeated for a whole product of the remaining ones.
\<close>

theorem product_refines_spec:
  "seqs \<noteq> [] \<Longrightarrow>
     product_js seqs = yield_all (product_spec seqs)
     \<and> length (yielded (product_js seqs)) = prod_list (map length seqs)
     \<and> map hd (yielded (product_js seqs))
         = concat (map (replicate (prod_list (map length (tl seqs)))) (hd seqs))"
proof -
  assume s: "seqs \<noteq> []"
  have 1: "product_js seqs = yield_all (product_spec seqs)"
    unfolding product_js_def by (rule array_product_eq[OF s])
  have 2: "length (yielded (product_js seqs)) = prod_list (map length seqs)"
    by (simp only: 1 yielded_simps length_product_spec[OF s])
  have 3: "map hd (product_spec seqs)
         = concat (map (replicate (prod_list (map length (tl seqs)))) (hd seqs))"
  proof (cases "tl seqs = []")
    case True
    with s obtain a where "seqs = [a]" by (cases seqs) auto
    then show ?thesis by (simp add: o_def concat_replicate_one)
  next
    case False
    with s heads_product_spec[OF False, of "hd seqs"] show ?thesis by simp
  qed
  from 1 2 3 show ?thesis by (simp add: yielded_simps)
qed

theorem product_refines_spec_witness:
  "[''ab'', ''xyz''] \<noteq> []
   \<and> product_js [''ab'', ''xyz''] = yield_all [''ax'', ''ay'', ''az'', ''bx'', ''by'', ''bz'']
   \<and> product_js [''ab'', ''xyz''] = yield_all (product_spec [''ab'', ''xyz''])
   \<and> length (yielded (product_js [''ab'', ''xyz''])) = prod_list (map length [''ab'', ''xyz''])
   \<and> map hd (yielded (product_js [''ab'', ''xyz''])) = ''aaabbb''"
proof -
  have h: "[''ab'', ''xyz''] \<noteq> []" by simp
  have e: "product_js [''ab'', ''xyz''] = yield_all [''ax'', ''ay'', ''az'', ''bx'', ''by'', ''bz'']"
    by code_simp
  have r: "concat (map (replicate (prod_list (map length (tl [''ab'', ''xyz''])))) (hd [''ab'', ''xyz'']))
      = ''aaabbb''" by code_simp
  from product_refines_spec[OF h, unfolded r] h e show ?thesis
    by - (elim conjE, intro conjI, assumption+)
qed

section \<open>Results for \<open>take\<close>\<close>

lemma length_take_loop: "length (take_loop pairs idx indices) \<le> length pairs"
  by (induction pairs idx indices rule: take_loop.induct) (auto split: list.splits)

lemma length_enumerate_js: "length (enumerate_js iterable start) = length iterable"
  by (simp add: enumerate_js_def)

text \<open>
  Claim C4 (the code departs from it). \<open>take([a], [0,1,2])\<close> yields \<open>a\<close> and returns: the
  loop over the source has ended, and no value stands in for the indices 1 and 2. In
  general \<open>take\<close> yields at most as many values as the source has items.
\<close>

theorem take_stops_with_source:
  "take_js [a] [0, 1, 2] = yield_all [a]
   \<and> length (yielded (take_js [a] [0, 1, 2])) \<noteq> length [0, 1, 2 :: int]
   \<and> length (yielded (take_js iterable indices)) \<le> length iterable"
proof -
  have 1: "take_js [a] [0, 1, 2] = yield_all [a]"
    by (simp add: take_js_def enumerate_js_def)
  have "length (yielded (take_js iterable indices)) \<le> length iterable"
    using length_take_loop[of "enumerate_js iterable 0"]
    by (cases indices) (simp_all add: take_js_def yielded_simps length_enumerate_js)
  with 1 show ?thesis by (simp add: yielded_simps)
qed

section \<open>Results for \<open>zip\<close> and \<open>cycle\<close>\<close>

lemma run_add:
  "run nxt (j + k) s =
     (case run nxt j s of
        (vs, Running s') \<Rightarrow> (case run nxt k s' of (ws, out) \<Rightarrow> (vs @ ws, out))
      | (vs, out) \<Rightarrow> (vs, out))"
proof (induction j arbitrary: s)
  case 0
  then show ?case by (simp split: prod.splits)
next
  case (Suc j)
  show ?case
  proof (cases "nxt s")
    case None
    then show ?thesis by simp
  next
    case (Some st)
    then show ?thesis
      by (cases st) (simp_all add: Suc split: prod.splits outcome.splits)
  qed
qed

lemma zip_next_no_iterators: "zip_next nxt [] = Yield [] []"
  by (simp add: zip_next_def)

lemma run_zip_no_iterators:
  "run (\<lambda>s. Some (zip_next nxt s)) k [] = (replicate k [], Running [])"
  by (induction k) (simp_all add: zip_next_no_iterators)

lemma zip_next_exhausted:
  "c \<in> set iterators \<Longrightarrow> nxt c = None \<Longrightarrow> zip_next nxt iterators = Done"
  by (force simp: zip_next_def list_all_iff Let_def)

lemma zip_example:
  "run (\<lambda>iterators. Some (zip_next array_next iterators)) 4 [''012'', ''abcd'']
     = ([''0a'', ''1b'', ''2c''], Finished)"
  by (simp add: zip_next_def array_next_def numeral_eq_Suc)

text \<open>
  Claim C10. With no arguments the array of iterators is empty, every round of the loop
  yields the empty array and leaves the state unchanged: however many values the
  consumer asks for, it gets that many empty arrays and the generator is still running.
\<close>

theorem zip_without_arguments:
  "zip_next nxt [] = Yield [] []
   \<and> run (\<lambda>iterators. Some (zip_next nxt iterators)) k [] = (replicate k [], Running [])"
  by (simp add: zip_next_no_iterators run_zip_no_iterators)

lemma cycle_next_array_item:
  "cycle_next n (Array pool) (Some (ArrayIterator (v # rest)))
     = Some (Yield v (n, Array pool, Some (ArrayIterator rest)))"
  by (subst cycle_next.simps) (simp add: delegate_next_def)

lemma cycle_next_array_restart:
  "exhausted d \<Longrightarrow> 0 < n \<Longrightarrow>
     cycle_next n (Array pool) d = cycle_next (n - 1) (Array pool) (Some (ArrayIterator pool))"
  by (subst cycle_next.simps) (auto simp: delegate_next_def get_iterator_def exhausted_def)

lemma cycle_next_array_done:
  "exhausted d \<Longrightarrow> cycle_next 0 (Array pool) d = Some Done"
  by (subst cycle_next.simps) (auto simp: delegate_next_def exhausted_def)

lemma run_array_items:
  "j \<le> length rest \<Longrightarrow>
     run cycle_step j (n, Array pool, Some (ArrayIterator rest))
       = (take j rest, Running (n, Array pool, Some (ArrayIterator (drop j rest))))"
proof (induction j arbitrary: rest)
  case 0
  then show ?case by simp
next
  case (Suc j)
  then obtain v rest' where r: "rest = v # rest'" by (cases rest) auto
  with Suc show ?case by (simp add: cycle_step_def cycle_next_array_item)
qed

lemma run_array_pass:
  assumes "exhausted d" "0 < n" "j \<le> length pool" "0 < j"
  shows "run cycle_step j (n, Array pool, d)
       = (take j pool, Running (n - 1, Array pool, Some (ArrayIterator (drop j pool))))"
proof -
  from assms obtain i where j: "j = Suc i" by (cases j) auto
  from assms j obtain v rest where p: "pool = v # rest" by (cases pool) auto
  have "cycle_step (n, Array pool, d) = Some (Yield v (n - 1, Array pool, Some (ArrayIterator rest)))"
    by (simp add: cycle_step_def cycle_next_array_restart[OF assms(1,2)] p cycle_next_array_item)
  moreover have "i \<le> length rest" using assms(3) j p by simp
  ultimately show ?thesis using run_array_items[of i rest "n - 1" pool]
    by (simp add: j p)
qed

lemma cycle_next_empty_array:
  "exhausted d \<Longrightarrow> cycle_next (enat t) (Array []) d = Some Done"
proof (induction t arbitrary: d)
  case 0
  then show ?case by (simp add: cycle_next_array_done zero_enat_def[symmetric])
next
  case (Suc t)
  have "cycle_next (enat (Suc t)) (Array []) d
      = cycle_next (enat (Suc t) - 1) (Array []) (Some (ArrayIterator []))"
    by (rule cycle_next_array_restart[OF Suc.prems]) (simp add: zero_enat_def)
  also have "enat (Suc t) - 1 = enat t" by (simp add: one_enat_def)
  finally show ?case using Suc.IH[of "Some (ArrayIterator [])"] by (simp add: exhausted_def)
qed

lemma run_cycle_array_finite:
  "exhausted d \<Longrightarrow>
     run cycle_step (t * length pool + 1) (enat t, Array pool, d)
       = (concat (replicate t pool), Finished)"
proof (cases "pool = []")
  case True
  assume "exhausted d"
  then show ?thesis using True by (simp add: cycle_step_def cycle_next_empty_array)
next
  case False
  assume "exhausted d"
  then show ?thesis
  proof (induction t arbitrary: d)
    case 0
    then show ?case
      by (simp add: cycle_step_def cycle_next_array_done zero_enat_def[symmetric])
  next
    case (Suc t)
    have p: "run cycle_step (length pool) (enat (Suc t), Array pool, d)
        = (pool, Running (enat t, Array pool, Some (ArrayIterator [])))"
      using run_array_pass[OF Suc.prems, of "enat (Suc t)" "length pool" pool] False
      by (simp add: zero_enat_def one_enat_def)
    have "Suc t * length pool + 1 = length pool + (t * length pool + 1)" by simp
    then show ?case
      using Suc.IH[of "Some (ArrayIterator [])"]
      by (simp only: run_add p) (simp add: exhausted_def)
  qed
qed

lemma map_mod_upt_add:
  assumes "0 < length pool"
  shows "pool @ map (\<lambda>i. pool ! (i mod length pool)) [0..<k]
       = map (\<lambda>i. pool ! (i mod length pool)) [0..<length pool + k]"
proof -
  have "[0..<length pool + k] = [0..<length pool] @ [length pool..<length pool + k]"
    by (rule upt_add_eq_append) simp
  also have "[length pool..<length pool + k] = map (\<lambda>i. i + length pool) [0..<k]"
    by (simp only: map_add_upt add.commute[of k])
  finally have a: "[0..<length pool + k]
      = [0..<length pool] @ map (\<lambda>i. i + length pool) [0..<k]" .
  have b: "map (\<lambda>i. pool ! (i mod length pool)) [0..<length pool] = pool"
    by (rule nth_equalityI) simp_all
  have c: "map (\<lambda>i. pool ! (i mod length pool)) (map (\<lambda>i. i + length pool) [0..<k])
      = map (\<lambda>i. pool ! (i mod length pool)) [0..<k]"
    by (rule nth_equalityI) simp_all
  show ?thesis by (simp only: a map_append b c)
qed

lemma run_cycle_array_forever:
  "pool \<noteq> [] \<Longrightarrow> exhausted d \<Longrightarrow>
     \<exists>st. run cycle_step k (\<infinity>, Array pool, d)
       = (map (\<lambda>i. pool ! (i mod length pool)) [0..<k], Running st)"
proof (induction k arbitrary: d rule: less_induct)
  case (less k)
  show ?case
  proof (cases "k = 0")
    case True
    then show ?thesis by simp
  next
    case False
    show ?thesis
    proof (cases "k \<le> length pool")
      case True
      have "take k pool = map (\<lambda>i. pool ! (i mod length pool)) [0..<k]"
        using True by (simp add: list_eq_iff_nth_eq)
      then show ?thesis
        using run_array_pass[OF less.prems(2), of \<infinity> k pool] True False by simp
    next
      case gt: False
      then obtain k' where k: "k = length pool + k'" "k' < k"
        using less.prems(1) by (intro that[of "k - length pool"]) simp_all
      have p: "run cycle_step (length pool) (\<infinity>, Array pool, d)
          = (pool, Running (\<infinity>, Array pool, Some (ArrayIterator [])))"
        using run_array_pass[OF less.prems(2), of \<infinity> "length pool" pool] less.prems(1) by simp
      from less.IH[OF k(2) less.prems(1), of "Some (ArrayIterator [])"]
      obtain st where r: "run cycle_step k' (\<infinity>, Array pool, Some (ArrayIterator []))
          = (map (\<lambda>i. pool ! (i mod length pool)) [0..<k'], Running st)"
        by (auto simp: exhausted_def)
      have "run cycle_step (length pool + k') (\<infinity>, Array pool, d)
          = (pool @ map (\<lambda>i. pool ! (i mod length pool)) [0..<k'], Running st)"
        by (simp add: run_add p r)
      also have "pool @ map (\<lambda>i. pool ! (i mod length pool)) [0..<k']
          = map (\<lambda>i. pool ! (i mod length pool)) [0..<length pool + k']"
        using less.prems(1) by (intro map_mod_upt_add) simp
      finally show ?thesis unfolding k(1) by (rule exI)
    qed
  qed
qed

lemma cycle_next_empty_array_forever:
  assumes "cycle_next n iterable d = Some y"
  shows "\<not> (n = \<infinity> \<and> iterable = Array [] \<and> exhausted d)"
proof (rule cycle_next.raw_induct[where P = "\<lambda>n iterable d y.
         \<not> (n = \<infinity> \<and> iterable = Array [] \<and> exhausted d)", OF _ assms])
  fix f :: "enat \<Rightarrow> 'a iterable \<Rightarrow> 'a delegate option \<Rightarrow> ('a, 'a cycle_state) step option"
    and n iterable delegate na
  assume IH: "\<And>n iterable d y. f n iterable d = Some y \<Longrightarrow>
          \<not> (n = \<infinity> \<and> iterable = Array [] \<and> exhausted d)"
    and eq: "(case delegate_next iterable delegate of
        None \<Rightarrow>
          if 0 < n
          then f (n - 1) iterable (Some (get_iterator iterable))
          else Some Done
        | Some (v, iterable', delegate') \<Rightarrow>
            Some (Yield v (n, iterable', delegate'))) = Some na"
  show "\<not> (n = \<infinity> \<and> iterable = Array [] \<and> exhausted delegate)"
  proof
    assume a: "n = \<infinity> \<and> iterable = Array [] \<and> exhausted delegate"
    then have "delegate_next iterable delegate = None"
      by (auto simp: delegate_next_def exhausted_def)
    with eq a have "f \<infinity> (Array []) (Some (ArrayIterator [])) = Some na"
      by (simp add: get_iterator_def)
    from IH[OF this] show False by (simp add: exhausted_def)
  qed
qed

lemma cycle_next_hangs: "cycle_next \<infinity> (Array ([] :: 'a list)) None = None"
proof (rule ccontr)
  assume "cycle_next \<infinity> (Array ([] :: 'a list)) None \<noteq> None"
  then obtain y where "cycle_next \<infinity> (Array ([] :: 'a list)) None = Some y" by auto
  from cycle_next_empty_array_forever[OF this] show False by (simp add: exhausted_def)
qed

lemma cycle_next_iterator_item:
  "cycle_next n (Iterator (v # rest)) (Some ArgumentItself)
     = Some (Yield v (n, Iterator rest, Some ArgumentItself))"
  by (subst cycle_next.simps) (simp add: delegate_next_def)

lemma cycle_next_iterator_start:
  "0 < n \<Longrightarrow> cycle_next n (Iterator items) None
     = cycle_next (n - 1) (Iterator items) (Some ArgumentItself)"
  by (subst cycle_next.simps) (simp add: delegate_next_def get_iterator_def)

lemma cycle_next_iterator_done:
  "cycle_next (enat t) (Iterator []) (Some ArgumentItself) = Some Done"
proof (induction t)
  case 0
  then show ?case by (subst cycle_next.simps) (simp add: delegate_next_def zero_enat_def)
next
  case (Suc t)
  have "enat (Suc t) - 1 = enat t" by (simp add: one_enat_def)
  with Suc show ?case
    by (subst cycle_next.simps) (simp add: delegate_next_def get_iterator_def zero_enat_def)
qed

lemma run_iterator_items:
  "run cycle_step (length items + 1) (enat t, Iterator items, Some ArgumentItself)
     = (items, Finished)"
  by (induction items)
    (simp_all add: cycle_step_def cycle_next_iterator_done cycle_next_iterator_item)

lemma run_cycle_iterator:
  assumes "0 < t"
  shows "run cycle_step (length items + 1) (enat t, Iterator items, None) = (items, Finished)"
proof -
  have "enat t - 1 = enat (t - 1)" by (simp add: one_enat_def)
  then have "cycle_step (enat t, Iterator items, None)
      = cycle_step (enat (t - 1), Iterator items, Some ArgumentItself)"
    using assms by (simp add: cycle_step_def cycle_next_iterator_start zero_enat_def)
  then have "run cycle_step (length items + 1) (enat t, Iterator items, None)
      = run cycle_step (length items + 1) (enat (t - 1), Iterator items, Some ArgumentItself)"
    by simp
  then show ?thesis by (simp only: run_iterator_items)
qed

text \<open>
  Claim C8, amended: \<open>cycle\<close> does not materialize its argument. For an array and a
  finite count \<open>t\<close> it yields the items of the array, in order, exactly \<open>t\<close> times
  (\<open>t \<times> |seq|\<close> values) and is then done; with the count omitted it replays a non-empty
  array for ever (the value at position \<open>i\<close> is the item at \<open>i mod |seq|\<close>, and the
  generator never finishes). A single-use iterator is yielded once only, whatever the
  count \<open>t \<ge> 1\<close>.
\<close>

theorem cycle_replays_array:
  "run cycle_step (t * length pool + 1) (cycle (Array pool) (enat t))
       = (concat (replicate t pool), Finished)
   \<and> length (concat (replicate t pool)) = t * length pool
   \<and> (pool \<noteq> [] \<longrightarrow>
        (\<exists>st. run cycle_step k (cycle (Array pool) \<infinity>)
           = (map (\<lambda>i. pool ! (i mod length pool)) [0..<k], Running st)))
   \<and> (0 < t \<longrightarrow>
        run cycle_step (length items + 1) (cycle (Iterator items) (enat t)) = (items, Finished))"
proof -
  have e: "exhausted None" by (simp add: exhausted_def)
  have "length (concat (replicate t pool)) = t * length pool"
    by (induction t) simp_all
  then show ?thesis
    using run_cycle_array_finite[OF e, of t pool] run_cycle_array_forever[OF _ e, of pool k]
      run_cycle_iterator[of t items]
    by (simp add: cycle_def)
qed

theorem cycle_replays_array_witness:
  "run cycle_step 7 (cycle (Array ''abc'') 2) = (''abcabc'', Finished)
   \<and> ''abc'' \<noteq> []
   \<and> (\<exists>st. run cycle_step 7 (cycle (Array ''abc'') \<infinity>) = (''abcabca'', Running st))
   \<and> 0 < (2::nat)
   \<and> run cycle_step 4 (cycle (Iterator ''abc'') 2) = (''abc'', Finished)"
proof -
  have m: "map (\<lambda>i. ''abc'' ! (i mod length ''abc'')) [0..<7] = ''abcabca''"
    by (simp add: upt_rec)
  have n: "2 * length ''abc'' + 1 = 7" "length ''abc'' + 1 = 4" "enat 2 = 2"
    "concat (replicate 2 ''abc'') = ''abcabc''"
    by (simp_all add: numeral_eq_enat numeral_eq_Suc)
  have h: "''abc'' \<noteq> []" "0 < (2::nat)" by simp_all
  note t = cycle_replays_array[of 2 "''abc''" 7 "''abc''", unfolded n m]
  from t h show ?thesis by blast
qed

text \<open>
  \<open>cycle(range(3), 2)\<close>: the claim as stated asks for \<open>2 \<times> 3\<close> values; the second round
  finds the iterator used up, and the generator is done after \<open>0, 1, 2\<close>.
\<close>

theorem cycle_iterator_counterexample:
  "run cycle_step 4 (cycle (Iterator [0, 1, 2 :: nat]) 2) = ([0, 1, 2], Finished)
   \<and> length (fst (run cycle_step 4 (cycle (Iterator [0, 1, 2 :: nat]) 2)))
       \<noteq> 2 * length [0, 1, 2 :: nat]"
proof -
  have n: "length [0, 1, 2 :: nat] + 1 = 4" "enat 2 = 2" by (simp_all add: numeral_eq_enat)
  have "run cycle_step 4 (cycle (Iterator [0, 1, 2 :: nat]) 2) = ([0, 1, 2], Finished)"
    using run_cycle_iterator[of 2 "[0, 1, 2 :: nat]", unfolded n] by (simp only: cycle_def)
  then show ?thesis by (simp only:) simp
qed

end
